theory Spec2Isabelle
  imports Main "HOL-Library.Char_ord" "HOL-Library.List_Lexorder" "HOL-Library.Mapping"
    "HOL-Library.AList_Mapping"
begin

section \<open>The bAbI story parser and vectorizer of examples/babi_rnn.ipynb\<close>

text \<open>
  The notebook runs on Python 3.5.3 (its metadata and the recorded FutureWarning of
  \<^verbatim>\<open>re.split\<close> say so). Text is modelled as \<^typ>\<open>string\<close>; the model covers ASCII
  input, as the bAbI files are, for which \<^verbatim>\<open>line.decode('utf-8')\<close> is the identity.
  Every exception of the source is a value of \<open>error\<close>.
\<close>

datatype error = ValueError | TypeError | IndexError | KeyError | PadError

subsection \<open>Characters and the string methods the parser uses\<close>

definition word_chars :: string where
  "word_chars = ''abcdefghijklmnopqrstuvwxyzABCDEFGHIJKLMNOPQRSTUVWXYZ0123456789_''"

definition is_word :: "char \<Rightarrow> bool" where
  \<comment> \<open>the complement of the regular expression class \<^verbatim>\<open>\W\<close> on ASCII\<close>
  "is_word c = (c \<in> set word_chars)"

definition space_chars :: string where
  \<comment> \<open>what \<^verbatim>\<open>str.isspace\<close> accepts below 128: TAB, LF, VT, FF, CR, FS, GS, RS, US, space\<close>
  "space_chars = [CHR 0x09, CHR 0x0A, CHR 0x0B, CHR 0x0C, CHR 0x0D,
                  CHR 0x1C, CHR 0x1D, CHR 0x1E, CHR 0x1F, CHR 0x20]"

definition is_space :: "char \<Rightarrow> bool" where
  "is_space c = (c \<in> set space_chars)"

definition strip :: "string \<Rightarrow> string" where
  \<comment> \<open>\<^verbatim>\<open>s.strip()\<close>\<close>
  "strip s = rev (dropWhile is_space (rev (dropWhile is_space s)))"

subsection \<open>tokenize\<close>

text \<open>
  \<^verbatim>\<open>re.split('(\W+)?', sent)\<close> on Python 3.5: the pattern matches at every position, the
  longest run of non-word characters there or the empty string; an empty match is skipped
  (the search moves on by one character), so the string is split at the maximal runs of
  non-word characters, and each run is kept in the result as the captured group.
  \<open>split_word acc s\<close> is inside a piece (\<open>acc\<close> reversed, read so far), \<open>split_sep\<close>
  inside a separator. After the last separator comes the rest of the string, also when
  it is empty.
\<close>

fun split_word :: "string \<Rightarrow> string \<Rightarrow> string list"
  and split_sep :: "string \<Rightarrow> string \<Rightarrow> string list" where
  "split_word acc [] = [rev acc]"
| "split_word acc (c # cs) =
     (if is_word c then split_word (c # acc) cs else rev acc # split_sep [c] cs)"
| "split_sep acc [] = [rev acc, []]"
| "split_sep acc (c # cs) =
     (if is_word c then rev acc # split_word [c] cs else split_sep (c # acc) cs)"

definition re_split :: "string \<Rightarrow> string list" where
  "re_split sent = split_word [] sent"

definition tokenize :: "string \<Rightarrow> string list" where
  \<comment> \<open>\<^verbatim>\<open>[x.strip() for x in re.split('(\W+)?', sent) if x.strip()]\<close>\<close>
  "tokenize sent = map strip (filter (\<lambda>x. strip x \<noteq> []) (re_split sent))"

subsection \<open>Splitting, integers and indexing as Python does them\<close>

definition split1 :: "char \<Rightarrow> string \<Rightarrow> string list" where
  \<comment> \<open>\<^verbatim>\<open>s.split(c, 1)\<close>: one piece when \<open>c\<close> does not occur, else two, cut at the first \<open>c\<close>\<close>
  "split1 c s =
     (case dropWhile (\<lambda>x. x \<noteq> c) s of
        [] \<Rightarrow> [s]
      | _ # rest \<Rightarrow> [takeWhile (\<lambda>x. x \<noteq> c) s, rest])"

fun split_when :: "(char \<Rightarrow> bool) \<Rightarrow> string \<Rightarrow> string list" where
  "split_when P [] = [[]]"
| "split_when P (x # xs) =
     (if P x then [] # split_when P xs
      else (case split_when P xs of y # ys \<Rightarrow> (x # y) # ys | [] \<Rightarrow> [[x]]))"

definition split_on :: "char \<Rightarrow> string \<Rightarrow> string list" where
  \<comment> \<open>\<^verbatim>\<open>s.split(c)\<close>: every piece between two occurrences of \<open>c\<close>, the empty ones too\<close>
  "split_on c s = split_when (\<lambda>x. x = c) s"

definition split_ws :: "string \<Rightarrow> string list" where
  \<comment> \<open>\<^verbatim>\<open>s.split()\<close>: the pieces between runs of white space, none of them empty\<close>
  "split_ws s = filter (\<lambda>w. w \<noteq> []) (split_when is_space s)"

definition digit_chars :: string where
  "digit_chars = ''0123456789''"

definition digit_val :: "char \<Rightarrow> int" where
  "digit_val c = int (of_char c) - 48"

definition int_space_chars :: string where
  \<comment> \<open>what \<^verbatim>\<open>int\<close> skips around the number in an ASCII string: TAB, LF, VT, FF, CR and
      space; unlike \<^verbatim>\<open>str.strip\<close> it does not skip FS, GS, RS and US\<close>
  "int_space_chars = [CHR 0x09, CHR 0x0A, CHR 0x0B, CHR 0x0C, CHR 0x0D, CHR 0x20]"

definition is_int_space :: "char \<Rightarrow> bool" where
  "is_int_space c = (c \<in> set int_space_chars)"

definition py_int :: "string \<Rightarrow> error + int" where
  \<comment> \<open>\<^verbatim>\<open>int(s)\<close> of Python 3.5: white space around, one optional sign, then decimal
      digits, at least one (no underscores before 3.6)\<close>
  "py_int s =
     (let t = rev (dropWhile is_int_space (rev (dropWhile is_int_space s)));
          signed = (t \<noteq> [] \<and> (hd t = CHR ''-'' \<or> hd t = CHR ''+''));
          ds = (if signed then tl t else t);
          v = foldl (\<lambda>a c. 10 * a + digit_val c) 0 ds
      in if ds = [] \<or> (\<exists>c \<in> set ds. c \<notin> set digit_chars) then Inl ValueError
         else Inr (if t \<noteq> [] \<and> hd t = CHR ''-'' then - v else v))"

definition py_index :: "'a list \<Rightarrow> int \<Rightarrow> error + 'a" where
  \<comment> \<open>\<^verbatim>\<open>xs[i]\<close>: a negative index counts from the end, out of range raises IndexError\<close>
  "py_index xs i =
     (let n = int (length xs); j = (if i < 0 then i + n else i)
      in if 0 \<le> j \<and> j < n then Inr (xs ! nat j) else Inl IndexError)"

subsection \<open>parse\_stories\<close>

text \<open>
  An entry of the story buffer is a list of tokens (a narrative sentence) or the empty
  string \<^verbatim>\<open>''\<close> that \<^verbatim>\<open>story.append('')\<close> puts there after a question line. The two are
  different Python values: a list and a string cannot be added.
\<close>

datatype sentence = Placeholder | Sentence "string list"

fun truthy :: "sentence \<Rightarrow> bool" where
  \<comment> \<open>the test \<^verbatim>\<open>if x\<close>: false for \<^verbatim>\<open>''\<close> and for \<^verbatim>\<open>[]\<close>\<close>
  "truthy Placeholder = False"
| "truthy (Sentence ts) = (ts \<noteq> [])"

fun py_len :: "sentence \<Rightarrow> nat" where
  "py_len Placeholder = 0"
| "py_len (Sentence ts) = length ts"

type_synonym parsed = "sentence list \<times> string list \<times> string"

fun select_supporting :: "sentence list \<Rightarrow> string list \<Rightarrow> error + sentence list" where
  \<comment> \<open>\<^verbatim>\<open>[story[i - 1] for i in map(int, ids)]\<close>; the map is lazy, so the conversions and
      the reads alternate and the first failure of either is raised\<close>
  "select_supporting story [] = Inr []"
| "select_supporting story (w # ws) =
     (case py_int w of
        Inl e \<Rightarrow> Inl e
      | Inr i \<Rightarrow>
          (case py_index story (i - 1) of
             Inl e \<Rightarrow> Inl e
           | Inr x \<Rightarrow>
               (case select_supporting story ws of
                  Inl e \<Rightarrow> Inl e
                | Inr xs \<Rightarrow> Inr (x # xs))))"

definition parse_line ::
  "bool \<Rightarrow> parsed list \<times> sentence list \<Rightarrow> string \<Rightarrow> error + parsed list \<times> sentence list" where
  \<comment> \<open>the body of the loop of \<^verbatim>\<open>parse_stories\<close>, on the state \<open>(data, story)\<close>\<close>
  "parse_line only_supporting st bline =
     (case split1 (CHR '' '') (strip bline) of
        [nid, line] \<Rightarrow>
          (case py_int nid of
             Inl e \<Rightarrow> Inl e
           | Inr n \<Rightarrow>
               (let data = fst st; story = (if n = 1 then [] else snd st) in
                if CHR 0x09 \<in> set line then
                  (case split_on (CHR 0x09) line of
                     [q, a, supporting] \<Rightarrow>
                       (case (if only_supporting
                              then select_supporting story (split_ws supporting)
                              else Inr (filter truthy story)) of
                          Inl e \<Rightarrow> Inl e
                        | Inr substory \<Rightarrow>
                            Inr (data @ [(substory, tokenize q, a)], story @ [Placeholder]))
                   | _ \<Rightarrow> Inl ValueError)
                else Inr (data, story @ [Sentence (tokenize line)])))
      | _ \<Rightarrow> Inl ValueError)"

fun parse_loop ::
  "bool \<Rightarrow> parsed list \<times> sentence list \<Rightarrow> string list \<Rightarrow> error + parsed list \<times> sentence list" where
  "parse_loop only_supporting st [] = Inr st"
| "parse_loop only_supporting st (l # ls) =
     (case parse_line only_supporting st l of
        Inl e \<Rightarrow> Inl e
      | Inr st' \<Rightarrow> parse_loop only_supporting st' ls)"

definition parse_stories :: "string list \<Rightarrow> bool \<Rightarrow> error + parsed list" where
  "parse_stories lines only_supporting =
     (case parse_loop only_supporting ([], []) lines of
        Inl e \<Rightarrow> Inl e
      | Inr st \<Rightarrow> Inr (fst st))"

subsection \<open>get\_stories\<close>

fun py_add :: "sentence \<Rightarrow> sentence \<Rightarrow> error + sentence" where
  \<comment> \<open>\<^verbatim>\<open>x + y\<close> on the values of the story buffer\<close>
  "py_add (Sentence x) (Sentence y) = Inr (Sentence (x @ y))"
| "py_add Placeholder Placeholder = Inr Placeholder"
| "py_add (Sentence x) Placeholder = Inl TypeError"
| "py_add Placeholder (Sentence y) = Inl TypeError"

fun reduce_add :: "sentence \<Rightarrow> sentence list \<Rightarrow> error + sentence" where
  "reduce_add acc [] = Inr acc"
| "reduce_add acc (y # ys) =
     (case py_add acc y of Inl e \<Rightarrow> Inl e | Inr z \<Rightarrow> reduce_add z ys)"

definition flatten :: "sentence list \<Rightarrow> error + sentence" where
  \<comment> \<open>\<^verbatim>\<open>reduce(lambda x, y: x + y, data)\<close>, with no initial value: TypeError on \<^verbatim>\<open>[]\<close>\<close>
  "flatten data = (case data of [] \<Rightarrow> Inl TypeError | x # xs \<Rightarrow> reduce_add x xs)"

type_synonym flat_example = "sentence \<times> string list \<times> string"

definition keep_story :: "int option \<Rightarrow> sentence list \<Rightarrow> error + bool" where
  \<comment> \<open>\<^verbatim>\<open>not max_length or len(flatten(story)) < max_length\<close>; \<^verbatim>\<open>None\<close> and \<^verbatim>\<open>0\<close> are falsy\<close>
  "keep_story max_length story =
     (case max_length of
        None \<Rightarrow> Inr True
      | Some m \<Rightarrow>
          if m = 0 then Inr True
          else (case flatten story of
                  Inl e \<Rightarrow> Inl e
                | Inr s \<Rightarrow> Inr (int (py_len s) < m)))"

fun flatten_examples :: "int option \<Rightarrow> parsed list \<Rightarrow> error + flat_example list" where
  \<comment> \<open>the list comprehension of \<^verbatim>\<open>get_stories\<close>, left to right\<close>
  "flatten_examples max_length [] = Inr []"
| "flatten_examples max_length ((story, q, answer) # rest) =
     (case keep_story max_length story of
        Inl e \<Rightarrow> Inl e
      | Inr keep \<Rightarrow>
          if keep then
            (case flatten story of
               Inl e \<Rightarrow> Inl e
             | Inr s \<Rightarrow>
                 (case flatten_examples max_length rest of
                    Inl e \<Rightarrow> Inl e
                  | Inr r \<Rightarrow> Inr ((s, q, answer) # r)))
          else flatten_examples max_length rest)"

definition get_stories :: "string list \<Rightarrow> bool \<Rightarrow> int option \<Rightarrow> error + flat_example list" where
  \<comment> \<open>\<open>f\<close> is \<^verbatim>\<open>f.readlines()\<close>; \<^verbatim>\<open>print(type(data), data[0])\<close> raises IndexError on an
      empty result\<close>
  "get_stories f only_supporting max_length =
     (case parse_stories f only_supporting of
        Inl e \<Rightarrow> Inl e
      | Inr data \<Rightarrow>
          (case flatten_examples max_length data of
             Inl e \<Rightarrow> Inl e
           | Inr [] \<Rightarrow> Inl IndexError
           | Inr (d # ds) \<Rightarrow> Inr (d # ds)))"

subsection \<open>The story of a question line, in the words of the specification\<close>

text \<open>
  Each line begins with a decimal sentence-id followed by a space, then content; a line
  whose content holds a tab is a question line. These read one line on its own, without
  the parser's state.
\<close>

definition sentence_id :: "string \<Rightarrow> int option" where
  "sentence_id bline =
     (case split1 (CHR '' '') (strip bline) of
        [nid, line] \<Rightarrow> (case py_int nid of Inl e \<Rightarrow> None | Inr n \<Rightarrow> Some n)
      | _ \<Rightarrow> None)"

definition line_content :: "string \<Rightarrow> string" where
  "line_content bline =
     (case split1 (CHR '' '') (strip bline) of [nid, line] \<Rightarrow> line | _ \<Rightarrow> [])"

definition is_question :: "string \<Rightarrow> bool" where
  "is_question bline = (CHR 0x09 \<in> set (line_content bline))"

fun until_reset :: "string list \<Rightarrow> string list" where
  \<comment> \<open>going backwards from the latest line, the lines up to and with the first one
      whose sentence-id is 1\<close>
  "until_reset [] = []"
| "until_reset (l # ls) = l # (if sentence_id l = Some 1 then [] else until_reset ls)"

definition since_reset :: "string list \<Rightarrow> string list" where
  \<comment> \<open>the lines since the most recent line whose sentence-id is 1, that line included\<close>
  "since_reset ls = rev (until_reset (rev ls))"

definition narrative_sentences :: "string list \<Rightarrow> string list list" where
  \<comment> \<open>the tokenized narrative sentences accumulated since the most recent reset\<close>
  "narrative_sentences ls =
     map (\<lambda>l. tokenize (line_content l)) (filter (\<lambda>l. \<not> is_question l) (since_reset ls))"

definition spec_story :: "string list \<Rightarrow> string list" where
  \<comment> \<open>the concatenation, in order, of the non-empty ones\<close>
  "spec_story ls = concat (filter (\<lambda>s. s \<noteq> []) (narrative_sentences ls))"

definition question_prefixes :: "string list \<Rightarrow> string list list" where
  \<comment> \<open>for each question line, in order, the input up to and with that line\<close>
  "question_prefixes ls =
     map (\<lambda>k. take (Suc k) ls) (filter (\<lambda>k. is_question (ls ! k)) [0..<length ls])"

definition sentence_of :: "string \<Rightarrow> sentence" where
  \<comment> \<open>what a line leaves in the story buffer: its tokens, or the placeholder of a question\<close>
  "sentence_of l = (if is_question l then Placeholder else Sentence (tokenize (line_content l)))"

definition within_bound :: "int option \<Rightarrow> string list \<Rightarrow> bool" where
  \<comment> \<open>the story passes the max-length filter; no bound and the bound 0 let every story pass\<close>
  "within_bound max_length s =
     (case max_length of None \<Rightarrow> True | Some m \<Rightarrow> if m = 0 then True else int (length s) < m)"

subsection \<open>The vocabulary\<close>

text \<open>
  The notebook builds the vocabulary from \<^verbatim>\<open>train + test\<close>, the examples that
  \<open>get_stories\<close> returned. A Python set is modelled by a list without duplicates (in the
  order of first insertion; the order in which Python iterates a set is not fixed, and
  \<open>sort_same_set\<close> below shows that the sorted result does not depend on it).
  \<^verbatim>\<open>sorted\<close> compares strings by their code points, which is the lexicographic order of
  \<^typ>\<open>string\<close>.
\<close>

fun example_tokens :: "flat_example \<Rightarrow> error + string list" where
  \<comment> \<open>\<^verbatim>\<open>story + q + [answer]\<close>; a story that is the string \<^verbatim>\<open>''\<close> cannot be added to a list\<close>
  "example_tokens (Sentence story, q, answer) = Inr (story @ q @ [answer])"
| "example_tokens (Placeholder, q, answer) = Inl TypeError"

fun vocab_union :: "string list \<Rightarrow> flat_example list \<Rightarrow> error + string list" where
  \<comment> \<open>the loop \<^verbatim>\<open>vocab |= set(story + q + [answer])\<close>: each token that \<open>vocab\<close> does not
      hold yet is added to it\<close>
  "vocab_union vocab [] = Inr vocab"
| "vocab_union vocab (ex # rest) =
     (case example_tokens ex of
        Inl e \<Rightarrow> Inl e
      | Inr ts \<Rightarrow> vocab_union (List.union ts vocab) rest)"

definition vocab :: "flat_example list \<Rightarrow> error + string list" where
  \<comment> \<open>\<^verbatim>\<open>vocab = sorted(vocab)\<close> after the loop, which starts from \<^verbatim>\<open>set()\<close>\<close>
  "vocab train_test =
     (case vocab_union [] train_test of Inl e \<Rightarrow> Inl e | Inr v \<Rightarrow> Inr (sort v))"

type_synonym py_dict = "(string, int) mapping"

definition dict :: "(string \<times> int) list \<Rightarrow> py_dict" where
  \<comment> \<open>\<^verbatim>\<open>dict(pairs)\<close>: the pairs are stored one after the other, a later one replaces an
      earlier one for the same key\<close>
  "dict pairs = foldl (\<lambda>m (k, v). Mapping.update k v m) Mapping.empty pairs"

definition word_idx :: "string list \<Rightarrow> py_dict" where
  \<comment> \<open>\<^verbatim>\<open>dict((c, i + 1) for i, c in enumerate(vocab))\<close>\<close>
  "word_idx v = dict (map (\<lambda>(i, c). (c, int i + 1)) (enumerate 0 v))"

definition py_dict_len :: "py_dict \<Rightarrow> nat" where
  \<comment> \<open>\<^verbatim>\<open>len(d)\<close>, the number of keys\<close>
  "py_dict_len d = Mapping.size d"

subsection \<open>vectorize\_stories\<close>

fun py_iter :: "sentence \<Rightarrow> string list" where
  \<comment> \<open>\<^verbatim>\<open>for w in story\<close>: the tokens of a list, nothing for the string \<^verbatim>\<open>''\<close>\<close>
  "py_iter (Sentence ts) = ts"
| "py_iter Placeholder = []"

definition lookup :: "py_dict \<Rightarrow> string \<Rightarrow> error + int" where
  \<comment> \<open>\<^verbatim>\<open>word_idx[w]\<close>\<close>
  "lookup d w = (case Mapping.lookup d w of None \<Rightarrow> Inl KeyError | Some i \<Rightarrow> Inr i)"

fun lookup_all :: "py_dict \<Rightarrow> string list \<Rightarrow> error + int list" where
  \<comment> \<open>\<^verbatim>\<open>[word_idx[w] for w in ws]\<close>\<close>
  "lookup_all d [] = Inr []"
| "lookup_all d (w # ws) =
     (case lookup d w of
        Inl e \<Rightarrow> Inl e
      | Inr i \<Rightarrow> (case lookup_all d ws of Inl e \<Rightarrow> Inl e | Inr r \<Rightarrow> Inr (i # r)))"

definition np_zeros :: "nat \<Rightarrow> int list" where
  \<comment> \<open>\<^verbatim>\<open>np.zeros(n)\<close>; the entries 0.0 and 1.0 of the answer vector are written 0 and 1\<close>
  "np_zeros n = replicate n 0"

definition np_setitem :: "int list \<Rightarrow> int \<Rightarrow> int \<Rightarrow> error + int list" where
  \<comment> \<open>\<^verbatim>\<open>y[k] = v\<close> on a one-dimensional array: a negative index counts from the end\<close>
  "np_setitem y k v =
     (let n = int (length y); j = (if k < 0 then k + n else k)
      in if 0 \<le> j \<and> j < n then Inr (y[nat j := v]) else Inl IndexError)"

definition vectorize_one ::
  "py_dict \<Rightarrow> flat_example \<Rightarrow> error + int list \<times> int list \<times> int list" where
  \<comment> \<open>the body of the loop of \<^verbatim>\<open>vectorize_stories\<close>\<close>
  "vectorize_one d ex =
     (case ex of (story, query, answer) \<Rightarrow>
        (case lookup_all d (py_iter story) of
           Inl e \<Rightarrow> Inl e
         | Inr x \<Rightarrow>
             (case lookup_all d query of
                Inl e \<Rightarrow> Inl e
              | Inr xq \<Rightarrow>
                  (case lookup d answer of
                     Inl e \<Rightarrow> Inl e
                   | Inr k \<Rightarrow>
                       (case np_setitem (np_zeros (py_dict_len d + 1)) k 1 of
                          Inl e \<Rightarrow> Inl e
                        | Inr y \<Rightarrow> Inr (x, xq, y))))))"

fun vectorize_loop ::
  "py_dict \<Rightarrow> flat_example list \<Rightarrow>
     error + int list list \<times> int list list \<times> int list list" where
  "vectorize_loop d [] = Inr ([], [], [])"
| "vectorize_loop d (ex # rest) =
     (case vectorize_one d ex of
        Inl e \<Rightarrow> Inl e
      | Inr (x, xq, y) \<Rightarrow>
          (case vectorize_loop d rest of
             Inl e \<Rightarrow> Inl e
           | Inr (xs, xqs, ys) \<Rightarrow> Inr (x # xs, xq # xqs, y # ys)))"

definition py_max :: "nat list \<Rightarrow> error + nat" where
  \<comment> \<open>\<^verbatim>\<open>max(ns)\<close>: ValueError on an empty sequence\<close>
  "py_max ns = (case ns of [] \<Rightarrow> Inl ValueError | n # rest \<Rightarrow> Inr (fold max rest n))"

definition story_maxlen :: "flat_example list \<Rightarrow> error + nat" where
  \<comment> \<open>\<^verbatim>\<open>max(map(len, (x for x, _, _ in train + test)))\<close>\<close>
  "story_maxlen train_test = py_max (map (\<lambda>ex. py_len (fst ex)) train_test)"

definition query_maxlen :: "flat_example list \<Rightarrow> error + nat" where
  \<comment> \<open>\<^verbatim>\<open>max(map(len, (x for _, x, _ in train + test)))\<close>\<close>
  "query_maxlen train_test = py_max (map (\<lambda>ex. length (fst (snd ex))) train_test)"

text \<open>
  Modelled from the spec: \<^verbatim>\<open>pad_sequences\<close> of \<^verbatim>\<open>keras.preprocessing.sequence\<close> is
  called by the notebook and is not among the sources. The specification of the
  vectorizer says of it: the ids of each example are left-padded with 0 to the fixed
  width, and it fails if an example exceeds the width.
\<close>

definition pad_sequence :: "nat \<Rightarrow> int list \<Rightarrow> error + int list" where
  "pad_sequence maxlen ids =
     (if maxlen < length ids then Inl PadError
      else Inr (replicate (maxlen - length ids) 0 @ ids))"

fun pad_sequences :: "int list list \<Rightarrow> nat \<Rightarrow> error + int list list" where
  "pad_sequences [] maxlen = Inr []"
| "pad_sequences (ids # rest) maxlen =
     (case pad_sequence maxlen ids of
        Inl e \<Rightarrow> Inl e
      | Inr row \<Rightarrow>
          (case pad_sequences rest maxlen of Inl e \<Rightarrow> Inl e | Inr rows \<Rightarrow> Inr (row # rows)))"

definition vectorize_stories ::
  "flat_example list \<Rightarrow> py_dict \<Rightarrow> nat \<Rightarrow> nat \<Rightarrow>
     error + int list list \<times> int list list \<times> int list list" where
  \<comment> \<open>\<open>d\<close> is \<^verbatim>\<open>word_idx\<close>, \<open>smax\<close> and \<open>qmax\<close> are \<^verbatim>\<open>story_maxlen\<close> and \<^verbatim>\<open>query_maxlen\<close>\<close>
  "vectorize_stories data d smax qmax =
     (case vectorize_loop d data of
        Inl e \<Rightarrow> Inl e
      | Inr (xs, xqs, ys) \<Rightarrow>
          (case pad_sequences xs smax of
             Inl e \<Rightarrow> Inl e
           | Inr x \<Rightarrow>
               (case pad_sequences xqs qmax of
                  Inl e \<Rightarrow> Inl e
                | Inr xq \<Rightarrow> Inr (x, xq, ys))))"

subsection \<open>The tokens of the examples\<close>

definition tokens_of :: "flat_example \<Rightarrow> string set" where
  \<comment> \<open>the story tokens, the question tokens and the answer of an example\<close>
  "tokens_of ex = (case ex of (story, q, answer) \<Rightarrow> set (py_iter story) \<union> set q \<union> {answer})"

definition token_union :: "flat_example list \<Rightarrow> string set" where
  "token_union exs = (\<Union>ex \<in> set exs. tokens_of ex)"


definition sample_vocab :: "string list" where
  "sample_vocab = [''.'', ''?'', ''Bob'', ''Mary'', ''Who'', ''down'', ''moved'', ''sat'']"

definition sample_examples :: "flat_example list" where
  "sample_examples =
     [(Sentence [''Mary'', ''moved'', ''.''], [''Who'', ''moved'', ''?''], ''Mary''),
      (Sentence [''Mary'', ''moved'', ''.'', ''Bob'', ''sat'', ''down'', ''.''],
       [''Who'', ''sat'', ''?''], ''Bob'')]"

subsection \<open>Sample input\<close>

definition tab :: string where
  "tab = [CHR 0x09]"

definition sample_lines :: "string list" where
  "sample_lines =
     [''1 Mary moved.'',
      ''2 Who moved?'' @ tab @ ''Mary'' @ tab @ ''1'',
      ''3 Bob sat down.'',
      ''4 Who sat?'' @ tab @ ''Bob'' @ tab @ ''3'']"

definition two_stories :: "string list" where
  "two_stories =
     [''1 Mary moved.'',
      ''2 Who moved?'' @ tab @ ''Mary'' @ tab @ ''1'',
      ''3 Bob sat down.'',
      ''1 Ann ran.'',
      ''2 Who ran?'' @ tab @ ''Ann'' @ tab @ ''1'']"

definition question_first :: "string list" where
  "question_first = [''1 Who moved?'' @ tab @ ''Mary'' @ tab @ ''1'']"

section \<open>Theorems\<close>

lemmas string_ops = tokenize_def re_split_def strip_def is_word_def word_chars_def
  is_space_def space_chars_def split1_def split_on_def split_ws_def py_int_def
  int_space_chars_def is_int_space_def digit_chars_def digit_val_def py_index_def

lemmas parser_ops = parse_line_def parse_stories_def flatten_def keep_story_def
  get_stories_def

lemmas sample_defs = sample_lines_def question_first_def two_stories_def tab_def

lemmas spec_ops = question_prefixes_def spec_story_def narrative_sentences_def
  since_reset_def is_question_def line_content_def sentence_id_def within_bound_def

subsection \<open>tokenize\<close>

text \<open>
  C2: tokenizing "Bob dropped the apple. Where is the apple?" gives the ten tokens
  Bob, dropped, the, apple, ., Where, is, the, apple, ? in this order: the words are
  split at the runs of non-word characters, the punctuation is kept as tokens of its
  own and the fragments of white space are dropped.
\<close>

theorem tokenize_bob:
  "tokenize ''Bob dropped the apple. Where is the apple?'' =
     [''Bob'', ''dropped'', ''the'', ''apple'', ''.'', ''Where'', ''is'', ''the'', ''apple'', ''?'']"
  by (simp add: tokenize_def re_split_def strip_def is_word_def word_chars_def
      is_space_def space_chars_def)


text \<open>
  In general: the pieces of \<open>re_split\<close> put together are the sentence again, and no token
  is empty or made of white space only.
\<close>

lemma split_concat:
  "concat (split_word acc s) = rev acc @ s"
  "concat (split_sep acc s) = rev acc @ s"
  by (induction acc s and acc s rule: split_word_split_sep.induct) simp_all

lemma re_split_concat: "concat (re_split sent) = sent"
  by (simp add: re_split_def split_concat)

lemma tokenize_nonempty: "t \<in> set (tokenize sent) \<Longrightarrow> t \<noteq> []"
  by (auto simp: tokenize_def)

lemma strip_not_blank:
  assumes "strip s \<noteq> []"
  shows "\<exists>c \<in> set (strip s). \<not> is_space c"
proof -
  let ?b = "dropWhile is_space (rev (dropWhile is_space s))"
  from assms have b: "?b \<noteq> []" by (simp add: strip_def)
  then have "\<not> is_space (hd ?b)" by (rule hd_dropWhile)
  moreover from b have "hd ?b \<in> set (strip s)" by (simp add: strip_def)
  ultimately show ?thesis by blast
qed

lemma tokenize_not_blank:
  "t \<in> set (tokenize sent) \<Longrightarrow> \<exists>c \<in> set t. \<not> is_space c"
  by (auto simp: tokenize_def dest: strip_not_blank)

text \<open>
  \<^verbatim>\<open>int\<close> accepts a tab after the digits and rejects the separator FS (0x1C), which
  \<^verbatim>\<open>strip\<close> would remove.
\<close>

lemma py_int_space:
  "py_int (''1'' @ tab) = Inr 1 \<and> py_int (''1'' @ [CHR 0x1C]) = Inl ValueError \<and>
   strip (''1'' @ [CHR 0x1C]) = ''1''"
  by (simp add: sample_defs string_ops)

subsection \<open>The parser in default mode\<close>

lemma parse_line_default:
  assumes "parse_line False (data, story) l = Inr (data', story')"
  shows "story' = (if sentence_id l = Some 1 then [] else story) @
           [if is_question l then Placeholder else Sentence (tokenize (line_content l))]"
    and "map fst data' = map fst data @
           (if is_question l
            then [filter truthy (if sentence_id l = Some 1 then [] else story)] else [])"
  using assms
  by (auto simp: parse_line_def sentence_id_def is_question_def line_content_def Let_def
      split: list.splits sum.splits if_splits)

lemma parse_loop_append:
  "parse_loop os st (xs @ ys) =
     (case parse_loop os st xs of Inl e \<Rightarrow> Inl e | Inr st' \<Rightarrow> parse_loop os st' ys)"
  by (induction xs arbitrary: st) (auto split: sum.splits)

lemma since_reset_snoc:
  "since_reset (ls @ [l]) = (if sentence_id l = Some 1 then [] else since_reset ls) @ [l]"
  by (simp add: since_reset_def)

lemma question_prefixes_snoc:
  "question_prefixes (ls @ [l]) =
     question_prefixes ls @ (if is_question l then [ls @ [l]] else [])"
proof -
  have a: "filter (\<lambda>k. is_question ((ls @ [l]) ! k)) [0..<length ls] =
           filter (\<lambda>k. is_question (ls ! k)) [0..<length ls]"
    by (rule filter_cong) (auto simp: nth_append)
  have b: "map (\<lambda>k. take (Suc k) (ls @ [l])) (filter (\<lambda>k. is_question (ls ! k)) [0..<length ls]) =
           map (\<lambda>k. take (Suc k) ls) (filter (\<lambda>k. is_question (ls ! k)) [0..<length ls])"
    by (rule map_cong) auto
  show ?thesis
    by (simp add: question_prefixes_def a b)
qed


lemma parse_loop_default_invariant:
  "parse_loop False ([], []) ls = Inr (data, story) \<Longrightarrow>
     story = map sentence_of (since_reset ls) \<and>
     map fst data = map (\<lambda>p. filter truthy (map sentence_of (since_reset p))) (question_prefixes ls)"
proof (induction ls arbitrary: data story rule: rev_induct)
  case Nil
  then show ?case by (simp add: since_reset_def question_prefixes_def)
next
  case (snoc l ls)
  from snoc.prems obtain d0 s0 where
    run: "parse_loop False ([], []) ls = Inr (d0, s0)" and
    step: "parse_line False (d0, s0) l = Inr (data, story)"
    by (auto simp: parse_loop_append split: sum.splits)
  from snoc.IH [OF run] have
    s0: "s0 = map sentence_of (since_reset ls)" and
    d0: "map fst d0 = map (\<lambda>p. filter truthy (map sentence_of (since_reset p))) (question_prefixes ls)"
    by simp_all
  from parse_line_default(1) [OF step] s0
  have story: "story = map sentence_of (since_reset (ls @ [l]))"
    by (simp add: since_reset_snoc sentence_of_def)
  from parse_line_default(2) [OF step] d0 s0
  have "map fst data =
      map (\<lambda>p. filter truthy (map sentence_of (since_reset p))) (question_prefixes (ls @ [l]))"
    by (simp add: question_prefixes_snoc since_reset_snoc sentence_of_def)
  with story show ?case by simp
qed

lemma truthy_sentences:
  "filter truthy (map sentence_of ls) =
     map Sentence (filter (\<lambda>s. s \<noteq> [])
       (map (\<lambda>l. tokenize (line_content l)) (filter (\<lambda>l. \<not> is_question l) ls)))"
  by (induction ls) (simp_all add: sentence_of_def)

lemma reduce_add_sentences:
  "reduce_add (Sentence a) (map Sentence ts) = Inr (Sentence (a @ concat ts))"
  by (induction ts arbitrary: a) simp_all

lemma flatten_sentences:
  "flatten (map Sentence ts) = (if ts = [] then Inl TypeError else Inr (Sentence (concat ts)))"
  by (cases ts) (simp_all add: flatten_def reduce_add_sentences)

lemma flatten_examples_sentences:
  "flatten_examples ml data = Inr exs \<Longrightarrow> map fst data = map (map Sentence) tss \<Longrightarrow>
     map fst exs = map Sentence (filter (within_bound ml) (map concat tss))"
proof (induction data arbitrary: exs tss)
  case Nil
  then show ?case by simp
next
  case (Cons p data)
  obtain story q answer where p: "p = (story, q, answer)" by (cases p)
  from Cons.prems(2) obtain ts tss' where
    tss: "tss = ts # tss'" "story = map Sentence ts" "map fst data = map (map Sentence) tss'"
    by (cases tss) (auto simp: p)
  from Cons.prems(1) have ne: "ts \<noteq> []"
    by (auto simp: p tss keep_story_def flatten_sentences split: option.splits if_splits)
  then have fl: "flatten story = Inr (Sentence (concat ts))"
    by (simp add: tss flatten_sentences)
  have keep: "keep_story ml story = Inr (within_bound ml (concat ts))"
    by (simp add: keep_story_def within_bound_def fl split: option.splits)
  show ?case
  proof (cases "within_bound ml (concat ts)")
    case True
    with Cons.prems(1) keep fl obtain r where
      r: "flatten_examples ml data = Inr r" "exs = (Sentence (concat ts), q, answer) # r"
      by (cases "flatten_examples ml data") (auto simp: p)
    from Cons.IH [OF r(1) tss(3)] True r(2) show ?thesis
      by (simp add: tss)
  next
    case False
    with Cons.prems(1) keep have "flatten_examples ml data = Inr exs"
      by (simp add: p)
    from Cons.IH [OF this tss(3)] False show ?thesis
      by (simp add: tss)
  qed
qed


lemma get_stories_Inr:
  "get_stories f only_supporting max_length = Inr exs \<Longrightarrow>
     \<exists>data. parse_stories f only_supporting = Inr data \<and>
       flatten_examples max_length data = Inr exs"
  by (auto simp: get_stories_def split: sum.splits list.splits)

lemma parse_stories_default:
  assumes "parse_stories f False = Inr data"
  shows "map fst data = map (map Sentence)
      (map (\<lambda>p. filter (\<lambda>s. s \<noteq> []) (narrative_sentences p)) (question_prefixes f))"
proof -
  from assms obtain story where "parse_loop False ([], []) f = Inr (data, story)"
    by (cases "parse_loop False ([], []) f") (auto simp: parse_stories_def)
  then have "map fst data =
      map (\<lambda>p. filter truthy (map sentence_of (since_reset p))) (question_prefixes f)"
    by (simp add: parse_loop_default_invariant)
  then show ?thesis
    by (simp add: truthy_sentences narrative_sentences_def)
qed

lemma spec_story_map:
  "map concat (map (\<lambda>p. filter (\<lambda>s. s \<noteq> []) (narrative_sentences p)) ps) = map spec_story ps"
  by (simp add: spec_story_def)

lemma get_stories_default_sentences:
  assumes "get_stories f False max_length = Inr exs"
  shows "\<forall>ex \<in> set exs. fst ex \<noteq> Placeholder"
proof -
  from get_stories_Inr [OF assms] obtain data where
    data: "parse_stories f False = Inr data" and
    fl: "flatten_examples max_length data = Inr exs"
    by blast
  from flatten_examples_sentences [OF fl parse_stories_default [OF data]]
  obtain ss where "map fst exs = map Sentence ss" by blast
  then have "set (map fst exs) \<subseteq> range Sentence" by auto
  then show ?thesis by auto
qed

text \<open>
  C1: in default mode the stories of the examples that \<open>get_stories\<close> returns are, in
  order, the stories of the question lines that pass the max-length filter, and the
  story of a question line is the concatenation, in order, of the tokenized non-empty
  narrative sentences since the most recent line whose sentence-id is 1; the
  placeholders of earlier question lines are not part of it.
\<close>

theorem get_stories_default_story:
  assumes "get_stories f False max_length = Inr exs"
  shows "map fst exs =
           map Sentence (filter (within_bound max_length) (map spec_story (question_prefixes f)))"
proof -
  from assms have "\<exists>data. parse_stories f False = Inr data \<and>
      flatten_examples max_length data = Inr exs"
    by (rule get_stories_Inr)
  then obtain data where data: "parse_stories f False = Inr data"
    and fl: "flatten_examples max_length data = Inr exs"
    by blast
  from flatten_examples_sentences [OF fl parse_stories_default [OF data]] show ?thesis
    by (simp only: spec_story_map)
qed

theorem get_stories_default_story_witness:
  "get_stories sample_lines False (Some 4) =
     Inr [(Sentence [''Mary'', ''moved'', ''.''], [''Who'', ''moved'', ''?''], ''Mary'')] \<and>
   map fst [(Sentence [''Mary'', ''moved'', ''.''], [''Who'', ''moved'', ''?''], ''Mary'')] =
     map Sentence (filter (within_bound (Some 4))
       (map spec_story (question_prefixes sample_lines)))"
proof -
  have h: "get_stories sample_lines False (Some 4) =
     Inr [(Sentence [''Mary'', ''moved'', ''.''], [''Who'', ''moved'', ''?''], ''Mary'')]"
    by (simp add: sample_defs string_ops parser_ops)
  from get_stories_default_story [OF h] h show ?thesis
    by blast
qed

text \<open>
  A line with the sentence-id 1 empties a buffer that holds sentences: the second
  story starts anew.
\<close>

lemma get_stories_two_stories:
  "get_stories two_stories False None =
     Inr [(Sentence [''Mary'', ''moved'', ''.''], [''Who'', ''moved'', ''?''], ''Mary''),
          (Sentence [''Ann'', ''ran'', ''.''], [''Who'', ''ran'', ''?''], ''Ann'')]"
  by (simp add: sample_defs string_ops parser_ops)

lemma spec_story_two_stories:
  "map spec_story (question_prefixes two_stories) =
     [[''Mary'', ''moved'', ''.''], [''Ann'', ''ran'', ''.'']]"
  by (simp add: sample_defs string_ops spec_ops)

lemma spec_story_sample:
  "map spec_story (question_prefixes sample_lines) =
     [[''Mary'', ''moved'', ''.''],
      [''Mary'', ''moved'', ''.'', ''Bob'', ''sat'', ''down'', ''.'']]"
  by (simp add: sample_defs string_ops spec_ops)

subsection \<open>The errors of flattening and the max-length filter\<close>

lemma reduce_add_error: "reduce_add acc ys = Inl e \<Longrightarrow> e = TypeError"
proof (induction ys arbitrary: acc)
  case Nil
  then show ?case by simp
next
  case (Cons y ys)
  then show ?case
    by (cases acc; cases y) (auto split: sum.splits)
qed

lemma flatten_error: "flatten story = Inl e \<Longrightarrow> e = TypeError"
  by (auto simp: flatten_def split: list.splits dest: reduce_add_error)

lemma flatten_Nil: "flatten [] = Inl TypeError"
  by (simp add: flatten_def)

lemma keep_story_error: "keep_story ml story = Inl e \<Longrightarrow> e = TypeError"
  by (auto simp: keep_story_def split: option.splits if_splits sum.splits dest: flatten_error)

lemma flatten_examples_error: "flatten_examples ml data = Inl e \<Longrightarrow> e = TypeError"
proof (induction ml data rule: flatten_examples.induct)
  case (1 ml)
  then show ?case by simp
next
  case (2 ml story q answer rest)
  then show ?case
    by (auto split: sum.splits if_splits dest: keep_story_error flatten_error)
qed

lemma keep_story_Nil: "keep_story ml [] = Inl TypeError \<or> keep_story ml [] = Inr True"
  by (simp add: keep_story_def flatten_Nil split: option.splits)

lemma flatten_examples_filter:
  "m \<noteq> 0 \<Longrightarrow> flatten_examples (Some m) data = Inr exs \<Longrightarrow>
     \<exists>every. flatten_examples None data = Inr every \<and>
       exs = filter (\<lambda>e. int (py_len (fst e)) < m) every"
proof (induction data arbitrary: exs)
  case Nil
  then show ?case by simp
next
  case (Cons p data)
  obtain story q answer where p: "p = (story, q, answer)" by (cases p)
  from Cons.prems obtain s where s: "flatten story = Inr s"
    by (cases "flatten story") (auto simp: p keep_story_def)
  show ?case
  proof (cases "int (py_len s) < m")
    case True
    with Cons.prems s obtain r where r: "flatten_examples (Some m) data = Inr r" "exs = (s, q, answer) # r"
      by (cases "flatten_examples (Some m) data") (auto simp: p keep_story_def)
    from Cons.IH [OF Cons.prems(1) r(1)] obtain every where
      "flatten_examples None data = Inr every" "r = filter (\<lambda>e. int (py_len (fst e)) < m) every"
      by blast
    with s True r show ?thesis by (simp add: p keep_story_def)
  next
    case False
    with Cons.prems s have r: "flatten_examples (Some m) data = Inr exs"
      by (auto simp: p keep_story_def)
    from Cons.IH [OF Cons.prems(1) r] obtain every where
      "flatten_examples None data = Inr every" "exs = filter (\<lambda>e. int (py_len (fst e)) < m) every"
      by blast
    with s False show ?thesis by (simp add: p keep_story_def)
  qed
qed


text \<open>
  For every bound other than 0 the filter does what its description says:
  \<open>get_stories\<close> with the bound returns the examples that it returns without a bound,
  less exactly those whose flattened story has a token count that is not strictly below
  the bound; every example it returns has a count strictly below the bound.
\<close>

theorem get_stories_max_length:
  assumes "m \<noteq> 0" and "get_stories f only_supporting (Some m) = Inr exs"
  shows "(\<exists>every. get_stories f only_supporting None = Inr every \<and>
            exs = filter (\<lambda>e. int (py_len (fst e)) < m) every) \<and>
         (\<forall>e \<in> set exs. int (py_len (fst e)) < m)"
proof -
  from assms(2) obtain data where data: "parse_stories f only_supporting = Inr data"
    by (cases "parse_stories f only_supporting") (auto simp: get_stories_def)
  with assms(2) have fl: "flatten_examples (Some m) data = Inr exs" and ne: "exs \<noteq> []"
    by (auto simp: get_stories_def split: sum.splits list.splits)
  from flatten_examples_filter [OF assms(1) fl] obtain every where
    every: "flatten_examples None data = Inr every"
      "exs = filter (\<lambda>e. int (py_len (fst e)) < m) every"
    by blast
  with ne have "every \<noteq> []" by auto
  with every(1) data have "get_stories f only_supporting None = Inr every"
    by (auto simp: get_stories_def split: list.splits)
  with every(2) show ?thesis by auto
qed


theorem get_stories_max_length_witness:
  "(4::int) \<noteq> 0 \<and>
   get_stories sample_lines False (Some 4) =
     Inr [(Sentence [''Mary'', ''moved'', ''.''], [''Who'', ''moved'', ''?''], ''Mary'')] \<and>
   get_stories sample_lines False None =
     Inr [(Sentence [''Mary'', ''moved'', ''.''], [''Who'', ''moved'', ''?''], ''Mary''),
          (Sentence [''Mary'', ''moved'', ''.'', ''Bob'', ''sat'', ''down'', ''.''],
           [''Who'', ''sat'', ''?''], ''Bob'')] \<and>
   int (py_len (Sentence [''Mary'', ''moved'', ''.''])) < 4"
proof -
  have z: "(4::int) \<noteq> 0" by simp
  have h: "get_stories sample_lines False (Some 4) =
     Inr [(Sentence [''Mary'', ''moved'', ''.''], [''Who'', ''moved'', ''?''], ''Mary'')]"
    by (simp add: sample_defs string_ops parser_ops)
  have n: "get_stories sample_lines False None =
     Inr [(Sentence [''Mary'', ''moved'', ''.''], [''Who'', ''moved'', ''?''], ''Mary''),
          (Sentence [''Mary'', ''moved'', ''.'', ''Bob'', ''sat'', ''down'', ''.''],
           [''Who'', ''sat'', ''?''], ''Bob'')]"
    by (simp add: sample_defs string_ops parser_ops)
  from get_stories_max_length [OF z h] z h n show ?thesis
    by simp
qed

text \<open>
  When the filter leaves no example, \<^verbatim>\<open>data[0]\<close> raises IndexError and nothing is
  returned: both stories of the sample have more than 0 tokens.
\<close>

lemma get_stories_bound_one:
  "get_stories sample_lines False (Some 1) = Inl IndexError"
  by (simp add: sample_defs string_ops parser_ops)

text \<open>
  The bound 0 is falsy in \<^verbatim>\<open>not max_length\<close>, as \<^verbatim>\<open>None\<close> is: with the bound 0
  \<open>get_stories\<close> does what it does without a bound.
\<close>

lemma flatten_examples_bound_zero:
  "flatten_examples (Some 0) data = flatten_examples None data"
  by (induction data) (auto simp: keep_story_def split: sum.splits)

lemma get_stories_bound_zero:
  "get_stories f only_supporting (Some 0) = get_stories f only_supporting None"
  by (simp add: get_stories_def flatten_examples_bound_zero split: sum.splits)

text \<open>
  C3: the claim fails on the code at the bound 0. The docstring of \<^verbatim>\<open>get_stories\<close> says
  that, when \<^verbatim>\<open>max_length\<close> is supplied, the stories longer than \<^verbatim>\<open>max_length\<close> tokens
  are discarded; with the bound 0 the story of 3 tokens is returned, and 3 is not
  strictly less than 0.
\<close>

theorem get_stories_bound_zero_kept:
  "get_stories [''1 Mary moved.'', ''2 Who moved?'' @ tab @ ''Mary'' @ tab @ ''1''] False (Some 0) =
     Inr [(Sentence [''Mary'', ''moved'', ''.''], [''Who'', ''moved'', ''?''], ''Mary'')] \<and>
   \<not> int (py_len (Sentence [''Mary'', ''moved'', ''.''])) < 0"
  by (simp add: sample_defs string_ops parser_ops)

subsection \<open>Flattening a story with no sentence\<close>

lemma flatten_examples_empty_story:
  "\<exists>p \<in> set data. fst p = [] \<Longrightarrow> \<exists>e. flatten_examples ml data = Inl e"
proof (induction ml data rule: flatten_examples.induct)
  case (1 ml)
  then show ?case by simp
next
  case (2 ml story q answer rest)
  show ?case
  proof (cases "story = []")
    case True
    with keep_story_Nil [of ml] show ?thesis
      by (auto simp: flatten_Nil)
  next
    case False
    with "2.prems" have rest: "\<exists>p \<in> set rest. fst p = []" by auto
    show ?thesis
    proof (cases "keep_story ml story")
      case (Inl e)
      then show ?thesis by simp
    next
      case (Inr keep)
      show ?thesis
      proof (cases keep)
        case True
        show ?thesis
        proof (cases "flatten story")
          case (Inl e)
          with Inr True show ?thesis by simp
        next
          case (Inr s)
          from "2.IH"(1) [OF \<open>keep_story ml story = Inr keep\<close> True Inr rest]
          obtain e where "flatten_examples ml rest = Inl e" ..
          with \<open>keep_story ml story = Inr keep\<close> True Inr show ?thesis by simp
        qed
      next
        case False
        from "2.IH"(2) [OF Inr False rest]
        obtain e where "flatten_examples ml rest = Inl e" ..
        with Inr False show ?thesis by simp
      qed
    qed
  qed
qed


text \<open>
  C10: when the parser resolves the story of some question line to the empty list of
  sentences, \<open>get_stories\<close> fails with the TypeError of \<^verbatim>\<open>reduce\<close> on an empty
  sequence, with or without a bound; so it returns only when every parsed example has
  at least one story sentence.
\<close>

theorem get_stories_empty_substory:
  assumes "parse_stories f only_supporting = Inr data"
    and "\<exists>p \<in> set data. fst p = []"
  shows "get_stories f only_supporting max_length = Inl TypeError"
proof -
  from assms(2) obtain e where e: "flatten_examples max_length data = Inl e"
    using flatten_examples_empty_story by blast
  then have "e = TypeError" by (rule flatten_examples_error)
  with e assms(1) show ?thesis by (simp add: get_stories_def)
qed


theorem get_stories_empty_substory_witness:
  "parse_stories question_first False = Inr [([], [''Who'', ''moved'', ''?''], ''Mary'')] \<and>
   (\<exists>p \<in> set [([] :: sentence list, [''Who'', ''moved'', ''?''], ''Mary'')]. fst p = []) \<and>
   get_stories question_first False None = Inl TypeError"
proof -
  have h: "parse_stories question_first False = Inr [([], [''Who'', ''moved'', ''?''], ''Mary'')]"
    by (simp add: sample_defs string_ops parser_ops)
  have e: "\<exists>p \<in> set [([] :: sentence list, [''Who'', ''moved'', ''?''], ''Mary'')]. fst p = []"
    by simp
  from get_stories_empty_substory [OF h e, of None] h e show ?thesis
    by blast
qed

lemma get_stories_default_no_sentence:
  assumes "\<exists>p \<in> set (question_prefixes f). filter truthy (map sentence_of (since_reset p)) = []"
  shows "\<exists>e. get_stories f False max_length = Inl e"
proof (cases "parse_loop False ([], []) f")
  case (Inl e)
  then show ?thesis by (simp add: get_stories_def parse_stories_def)
next
  case (Inr st)
  obtain data story where st: "st = (data, story)" by (cases st)
  from Inr have "map fst data =
      map (\<lambda>p. filter truthy (map sentence_of (since_reset p))) (question_prefixes f)"
    by (simp add: st parse_loop_default_invariant)
  with assms have "[] \<in> set (map fst data)" by force
  then have "\<exists>p \<in> set data. fst p = []" by force
  then obtain e where "flatten_examples max_length data = Inl e"
    using flatten_examples_empty_story by blast
  with Inr st show ?thesis by (simp add: get_stories_def parse_stories_def)
qed

text \<open>
  A question line whose list of supporting ids is empty ends with a tab, which
  \<^verbatim>\<open>strip\<close> removes: the line has two fields then, and the parser raises ValueError
  before any story is flattened.
\<close>

lemma get_stories_no_supporting_ids:
  "get_stories [''1 Mary moved.'', ''2 Who moved?'' @ tab @ ''Mary'' @ tab] True None =
     Inl ValueError"
  by (simp add: sample_defs string_ops parser_ops)

subsection \<open>The vocabulary\<close>

lemmas vocab_ops = vocab_def List.union_def List.insert_def
lemmas vectorize_ops = vectorize_stories_def vectorize_one_def lookup_def np_zeros_def
  np_setitem_def pad_sequence_def word_idx_def dict_def py_dict_len_def
  Mapping.size_def Mapping.lookup_update' eval_nat_numeral

lemma example_tokens_set: "example_tokens ex = Inr ts \<Longrightarrow> set ts = tokens_of ex"
  by (cases ex rule: example_tokens.cases) (auto simp: tokens_of_def)

lemma vocab_union_set:
  "vocab_union v exs = Inr v' \<Longrightarrow> set v' = set v \<union> token_union exs"
proof (induction exs arbitrary: v)
  case Nil
  then show ?case by (simp add: token_union_def)
next
  case (Cons ex exs)
  from Cons.prems obtain ts where ts: "example_tokens ex = Inr ts"
    and run: "vocab_union (List.union ts v) exs = Inr v'"
    by (auto split: sum.splits)
  from Cons.IH [OF run] example_tokens_set [OF ts] show ?case
    by (auto simp: token_union_def)
qed

lemma vocab_union_distinct:
  "vocab_union v exs = Inr v' \<Longrightarrow> distinct v \<Longrightarrow> distinct v'"
proof (induction exs arbitrary: v)
  case Nil
  then show ?case by simp
next
  case (Cons ex exs)
  from Cons.prems(1) obtain ts where
    run: "vocab_union (List.union ts v) exs = Inr v'"
    by (auto split: sum.splits)
  from Cons.IH [OF run] Cons.prems(2) show ?case
    by simp
qed

lemma vocab_sorted_distinct:
  assumes "vocab exs = Inr v"
  shows "sorted v" and "distinct v" and "set v = token_union exs"
proof -
  from assms obtain u where u: "vocab_union [] exs = Inr u" and v: "v = sort u"
    by (auto simp: vocab_def split: sum.splits)
  show "sorted v" by (simp add: v)
  from vocab_union_distinct [OF u] show "distinct v" by (simp add: v)
  from vocab_union_set [OF u] show "set v = token_union exs" by (simp add: v)
qed

lemma sort_same_set:
  fixes xs ys :: "string list"
  assumes "distinct xs" and "distinct ys" and "set xs = set ys"
  shows "sort xs = sort ys"
  by (rule sorted_distinct_set_unique) (simp_all add: assms)

lemma foldl_update:
  "Mapping.lookup (foldl (\<lambda>m (k, v). Mapping.update k v m) m ps) =
     Mapping.lookup m ++ map_of (rev ps)"
  by (induction ps arbitrary: m)
     (auto simp: fun_eq_iff map_add_def Mapping.lookup_update' split: option.splits)

lemma dict_map_of: "distinct (map fst ps) \<Longrightarrow> Mapping.lookup (dict ps) = map_of ps"
proof -
  assume d: "distinct (map fst ps)"
  then have "distinct (map fst (rev ps))" by (simp add: rev_map [symmetric])
  with d have "map_of (rev ps) = map_of ps"
    by (simp add: map_of_inject_set)
  then show ?thesis
    by (simp add: dict_def foldl_update fun_eq_iff map_add_def split: option.splits)
qed

lemma pairs_zip:
  "map (\<lambda>(i, c). (c, int i + 1)) (enumerate 0 v) = zip v (map (\<lambda>i. int i + 1) [0..<length v])"
  by (rule nth_equalityI) (simp_all add: enumerate_eq_zip)

lemma word_idx_map_of:
  "distinct v \<Longrightarrow> Mapping.lookup (word_idx v) = map_of (zip v (map (\<lambda>i. int i + 1) [0..<length v]))"
  by (simp add: word_idx_def pairs_zip dict_map_of)

lemma word_idx_nth:
  "distinct v \<Longrightarrow> i < length v \<Longrightarrow> Mapping.lookup (word_idx v) (v ! i) = Some (int i + 1)"
  by (simp add: word_idx_map_of map_of_zip_nth)

lemma word_idx_dom: "distinct v \<Longrightarrow> Mapping.keys (word_idx v) = set v"
  by (simp add: Mapping.keys_dom_lookup word_idx_map_of dom_map_of_zip)

lemma ids_range: "set (map (\<lambda>i. int i + 1) [0..<n]) = {1..int n}"
proof -
  have "(\<lambda>i. int i + 1) ` {0..<n} = {1..int n}"
  proof (rule set_eqI)
    fix k :: int
    show "k \<in> (\<lambda>i. int i + 1) ` {0..<n} \<longleftrightarrow> k \<in> {1..int n}"
    proof
      assume "k \<in> (\<lambda>i. int i + 1) ` {0..<n}"
      then show "k \<in> {1..int n}" by auto
    next
      assume k: "k \<in> {1..int n}"
      then have "k = int (nat (k - 1)) + 1" and "nat (k - 1) \<in> {0..<n}" by auto
      then show "k \<in> (\<lambda>i. int i + 1) ` {0..<n}" by (rule image_eqI)
    qed
  qed
  then show ?thesis by simp
qed

lemma word_idx_ran: "distinct v \<Longrightarrow> ran (Mapping.lookup (word_idx v)) = {1..int (length v)}"
  by (simp add: word_idx_map_of ran_map_of_zip ids_range del: set_map)

lemma word_idx_inj: "distinct v \<Longrightarrow> inj_on (Mapping.lookup (word_idx v)) (set v)"
proof (rule inj_onI)
  fix a b
  assume d: "distinct v" and a: "a \<in> set v" and b: "b \<in> set v"
    and eq: "Mapping.lookup (word_idx v) a = Mapping.lookup (word_idx v) b"
  from a obtain i where i: "i < length v" "a = v ! i" by (auto simp: in_set_conv_nth)
  from b obtain j where j: "j < length v" "b = v ! j" by (auto simp: in_set_conv_nth)
  from eq d i j have "i = j" by (simp add: word_idx_nth)
  with i j show "a = b" by simp
qed


text \<open>
  C4: the ids that the vocabulary gives to the tokens of all examples (story tokens,
  question tokens and answers) are exactly the integers from 1 to N, where N is the
  number of distinct tokens; two tokens never share an id, and no token has the id 0.
\<close>

theorem word_idx_contiguous:
  assumes "vocab train_test = Inr v"
  shows "Mapping.keys (word_idx v) = token_union train_test \<and>
         ran (Mapping.lookup (word_idx v)) = {1..int (card (token_union train_test))} \<and>
         inj_on (Mapping.lookup (word_idx v)) (token_union train_test) \<and>
         0 \<notin> ran (Mapping.lookup (word_idx v))"
proof -
  note v = vocab_sorted_distinct [OF assms]
  from v have n: "card (token_union train_test) = length v"
    by (metis distinct_card)
  from v(2) have r: "ran (Mapping.lookup (word_idx v)) = {1..int (length v)}" by (rule word_idx_ran)
  from v(2) have "inj_on (Mapping.lookup (word_idx v)) (set v)" by (rule word_idx_inj)
  with v(2,3) r n show ?thesis
    by (simp add: word_idx_dom)
qed

theorem word_idx_contiguous_witness:
  "vocab sample_examples = Inr sample_vocab \<and>
   Mapping.keys (word_idx sample_vocab) = token_union sample_examples \<and>
   ran (Mapping.lookup (word_idx sample_vocab)) = {1..int (card (token_union sample_examples))} \<and>
   inj_on (Mapping.lookup (word_idx sample_vocab)) (token_union sample_examples) \<and>
   0 \<notin> ran (Mapping.lookup (word_idx sample_vocab))"
proof -
  have h: "vocab sample_examples = Inr sample_vocab"
    by (simp add: vocab_ops sample_examples_def sample_vocab_def)
  from word_idx_contiguous [OF h] h show ?thesis
    by blast
qed

lemma card_sample: "card (token_union sample_examples) = 8"
  by code_simp


text \<open>
  C9: the vocabulary and the ids depend on the set of tokens only: two lists of examples
  with the same tokens, in whatever order and however often repeated, get the same
  sorted vocabulary and the same assignment of ids.
\<close>

theorem vocab_deterministic:
  assumes "vocab a = Inr va" and "vocab b = Inr vb" and "token_union a = token_union b"
  shows "va = vb \<and> word_idx va = word_idx vb"
proof -
  note a = vocab_sorted_distinct [OF assms(1)]
  note b = vocab_sorted_distinct [OF assms(2)]
  from a b assms(3) have "va = vb"
    by (intro sorted_distinct_set_unique) simp_all
  then show ?thesis by simp
qed


theorem vocab_deterministic_witness:
  "vocab sample_examples = Inr sample_vocab \<and>
   vocab (rev sample_examples @ sample_examples) = Inr sample_vocab \<and>
   token_union sample_examples = token_union (rev sample_examples @ sample_examples) \<and>
   word_idx sample_vocab = word_idx sample_vocab"
proof -
  have a: "vocab sample_examples = Inr sample_vocab"
    by (simp add: vocab_ops sample_examples_def sample_vocab_def)
  have b: "vocab (rev sample_examples @ sample_examples) = Inr sample_vocab"
    by (simp add: vocab_ops sample_examples_def sample_vocab_def)
  have u: "token_union sample_examples = token_union (rev sample_examples @ sample_examples)"
    by (simp add: token_union_def)
  from vocab_deterministic [OF a b u] a b u show ?thesis
    by blast
qed


subsection \<open>The vectorizer\<close>

lemma lookup_all_Inr:
  "lookup_all d ws = Inr r \<Longrightarrow> r = map (\<lambda>w. the (Mapping.lookup d w)) ws \<and> set ws \<subseteq> Mapping.keys d"
  by (induction ws arbitrary: r)
     (auto simp: lookup_def Mapping.keys_dom_lookup split: sum.splits option.splits)

lemma lookup_all_Inl: "lookup_all d ws = Inl e \<Longrightarrow> e = KeyError"
  by (induction ws) (auto simp: lookup_def split: sum.splits option.splits)

lemma lookup_all_total: "set ws \<subseteq> Mapping.keys d \<Longrightarrow> \<exists>r. lookup_all d ws = Inr r"
  by (induction ws)
     (auto simp: lookup_def Mapping.keys_dom_lookup split: sum.splits option.splits)

lemma lookup_all_missing: "\<not> set ws \<subseteq> Mapping.keys d \<Longrightarrow> lookup_all d ws = Inl KeyError"
proof -
  assume m: "\<not> set ws \<subseteq> Mapping.keys d"
  show ?thesis
  proof (cases "lookup_all d ws")
    case (Inl e)
    then show ?thesis by (simp add: lookup_all_Inl)
  next
    case (Inr r)
    with m show ?thesis by (simp add: lookup_all_Inr)
  qed
qed



lemma vectorize_one_Inr:
  assumes "vectorize_one d (story, query, answer) = Inr (x, xq, y)"
  shows "x = map (\<lambda>w. the (Mapping.lookup d w)) (py_iter story)" and "set (py_iter story) \<subseteq> Mapping.keys d"
    and "xq = map (\<lambda>w. the (Mapping.lookup d w)) query" and "set query \<subseteq> Mapping.keys d"
    and "\<exists>k. Mapping.lookup d answer = Some k \<and> np_setitem (np_zeros (py_dict_len d + 1)) k 1 = Inr y"
  using assms
  by (auto simp: vectorize_one_def lookup_def split: sum.splits option.splits
      dest!: lookup_all_Inr)

lemma vectorize_one_total:
  assumes "tokens_of (story, query, answer) \<subseteq> Mapping.keys d"
    and "\<forall>k. Mapping.lookup d answer = Some k \<longrightarrow> 0 \<le> k \<and> k \<le> int (py_dict_len d)"
  shows "\<exists>r. vectorize_one d (story, query, answer) = Inr r"
proof -
  from assms(1) have s: "set (py_iter story) \<subseteq> Mapping.keys d" and q: "set query \<subseteq> Mapping.keys d"
    and a: "answer \<in> Mapping.keys d"
    by (auto simp: tokens_of_def)
  from lookup_all_total [OF s] obtain x where x: "lookup_all d (py_iter story) = Inr x" ..
  from lookup_all_total [OF q] obtain xq where xq: "lookup_all d query = Inr xq" ..
  from a obtain k where k: "Mapping.lookup d answer = Some k"
    by (auto simp: Mapping.keys_dom_lookup)
  with assms(2) have "0 \<le> k" "k \<le> int (py_dict_len d)" by auto
  then have "\<exists>y. np_setitem (np_zeros (py_dict_len d + 1)) k 1 = Inr y"
    by (simp add: np_setitem_def np_zeros_def)
  with x xq k show ?thesis
    by (auto simp: vectorize_one_def lookup_def)
qed



lemma vectorize_loop_Inr:
  "vectorize_loop d data = Inr (xs, xqs, ys) \<Longrightarrow>
     length xs = length data \<and> length xqs = length data \<and> length ys = length data \<and>
     (\<forall>i < length data. vectorize_one d (data ! i) = Inr (xs ! i, xqs ! i, ys ! i))"
proof (induction data arbitrary: xs xqs ys)
  case Nil
  then show ?case by simp
next
  case (Cons ex data)
  from Cons.prems obtain x xq y xs' xqs' ys' where
    one: "vectorize_one d ex = Inr (x, xq, y)" and
    rest: "vectorize_loop d data = Inr (xs', xqs', ys')" and
    eq: "xs = x # xs'" "xqs = xq # xqs'" "ys = y # ys'"
    by (auto split: sum.splits prod.splits)
  from Cons.IH [OF rest] one show ?case
    by (auto simp: eq nth_Cons split: nat.splits)
qed

lemma vectorize_loop_total:
  "\<forall>ex \<in> set data. \<exists>r. vectorize_one d ex = Inr r \<Longrightarrow> \<exists>r. vectorize_loop d data = Inr r"
  by (induction data) (auto split: sum.splits prod.splits)

lemma pad_sequences_Inr:
  "pad_sequences rows maxlen = Inr out \<Longrightarrow>
     length out = length rows \<and>
     (\<forall>i < length rows. length (rows ! i) \<le> maxlen \<and>
        out ! i = replicate (maxlen - length (rows ! i)) 0 @ rows ! i)"
proof (induction rows arbitrary: out)
  case Nil
  then show ?case by simp
next
  case (Cons r rows)
  from Cons.prems obtain row out' where
    row: "pad_sequence maxlen r = Inr row" and
    rest: "pad_sequences rows maxlen = Inr out'" and eq: "out = row # out'"
    by (auto split: sum.splits)
  from row have "length r \<le> maxlen" "row = replicate (maxlen - length r) 0 @ r"
    by (auto simp: pad_sequence_def split: if_splits)
  with Cons.IH [OF rest] show ?case
    by (auto simp: eq nth_Cons split: nat.splits)
qed

lemma pad_sequences_total:
  "\<forall>r \<in> set rows. length r \<le> maxlen \<Longrightarrow> \<exists>out. pad_sequences rows maxlen = Inr out"
  by (induction rows) (auto simp: pad_sequence_def split: sum.splits)

lemma vectorize_stories_Inr:
  assumes "vectorize_stories data d sm qm = Inr (x, xq, y)"
  obtains xs xqs where "vectorize_loop d data = Inr (xs, xqs, y)"
    and "pad_sequences xs sm = Inr x" and "pad_sequences xqs qm = Inr xq"
  using assms
  by (auto simp: vectorize_stories_def split: sum.splits prod.splits)



text \<open>
  C5: when the vectorizer returns, the story row of every example has the width of the
  stories, ends with the ids of the story tokens in order and starts with zeros only;
  the question row is padded in the same way to the width of the questions. (The story
  has then at most as many tokens as the width.)
\<close>

theorem vectorize_stories_left_padded:
  assumes "vectorize_stories data d smax qmax = Inr (x, xq, y)"
    and "i < length data" and "data ! i = (story, query, answer)"
  shows "length (py_iter story) \<le> smax \<and>
         x ! i = replicate (smax - length (py_iter story)) 0 @
                   map (\<lambda>w. the (Mapping.lookup d w)) (py_iter story) \<and>
         length query \<le> qmax \<and>
         xq ! i = replicate (qmax - length query) 0 @ map (\<lambda>w. the (Mapping.lookup d w)) query \<and>
         set (py_iter story) \<union> set query \<subseteq> Mapping.keys d"
proof -
  from assms(1) obtain xs xqs where
    loop: "vectorize_loop d data = Inr (xs, xqs, y)" and
    px: "pad_sequences xs smax = Inr x" and
    pq: "pad_sequences xqs qmax = Inr xq"
    by (rule vectorize_stories_Inr)
  from vectorize_loop_Inr [OF loop] assms(2,3) have
    len: "length xs = length data" "length xqs = length data" and
    one: "vectorize_one d (story, query, answer) = Inr (xs ! i, xqs ! i, y ! i)"
    by auto
  note r = vectorize_one_Inr [OF one]
  from pad_sequences_Inr [OF px] len assms(2) have
    "length (xs ! i) \<le> smax"
    "x ! i = replicate (smax - length (xs ! i)) 0 @ xs ! i"
    by auto
  moreover from pad_sequences_Inr [OF pq] len assms(2) have
    "length (xqs ! i) \<le> qmax"
    "xq ! i = replicate (qmax - length (xqs ! i)) 0 @ xqs ! i"
    by auto
  ultimately show ?thesis
    using r(1-4) by simp
qed

lemma vectorize_sample:
  "vectorize_stories sample_examples (word_idx sample_vocab) 7 3 =
     Inr ([[0, 0, 0, 0, 4, 7, 1], [4, 7, 1, 3, 8, 6, 1]],
          [[5, 7, 2], [5, 8, 2]],
          [[0, 0, 0, 0, 1, 0, 0, 0, 0], [0, 0, 0, 1, 0, 0, 0, 0, 0]])"
  by (simp add: vectorize_ops sample_examples_def sample_vocab_def)

theorem vectorize_stories_left_padded_witness:
  "vectorize_stories sample_examples (word_idx sample_vocab) 7 3 =
     Inr ([[0, 0, 0, 0, 4, 7, 1], [4, 7, 1, 3, 8, 6, 1]],
          [[5, 7, 2], [5, 8, 2]],
          [[0, 0, 0, 0, 1, 0, 0, 0, 0], [0, 0, 0, 1, 0, 0, 0, 0, 0]]) \<and>
   [[0, 0, 0, 0, 4, 7, 1], [4, 7, 1, 3, 8, 6, 1]] ! 0 =
     replicate (7 - length (py_iter (Sentence [''Mary'', ''moved'', ''.'']))) 0 @
       map (\<lambda>w. the (Mapping.lookup (word_idx sample_vocab) w)) (py_iter (Sentence [''Mary'', ''moved'', ''.'']))"
proof -
  have h: "vectorize_stories sample_examples (word_idx sample_vocab) 7 3 =
     Inr ([[0, 0, 0, 0, 4, 7, 1], [4, 7, 1, 3, 8, 6, 1]],
          [[5, 7, 2], [5, 8, 2]],
          [[0, 0, 0, 0, 1, 0, 0, 0, 0], [0, 0, 0, 1, 0, 0, 0, 0, 0]])"
    by (simp add: vectorize_ops sample_examples_def sample_vocab_def)
  have i: "0 < length sample_examples" by (simp add: sample_examples_def)
  have e: "sample_examples ! 0 =
     (Sentence [''Mary'', ''moved'', ''.''], [''Who'', ''moved'', ''?''], ''Mary'')"
    by (simp add: sample_examples_def)
  from vectorize_stories_left_padded [OF h i e] h show ?thesis
    by blast
qed

lemma one_hot:
  assumes "k < n"
  shows "sum_list ((replicate n (0::int))[k := 1]) = 1"
proof -
  have "(replicate n (0::int))[k := 1] = replicate k 0 @ 1 # replicate (n - Suc k) 0"
    using assms
    by (simp add: upd_conv_take_nth_drop min_def)
  then show ?thesis by (simp add: sum_list_replicate)
qed


text \<open>
  C6: for a mapping whose ids are not negative, as those of a vocabulary are, the answer
  vector of every example has length vocabulary size + 1, is 1 at the index that is the
  id of the answer and 0 at every other index, and its entries sum to 1.
\<close>

theorem vectorize_stories_one_hot:
  assumes "vectorize_stories data d smax qmax = Inr (x, xq, y)"
    and "\<forall>k \<in> ran (Mapping.lookup d). 0 \<le> k"
    and "i < length data" and "data ! i = (story, query, answer)"
  shows "\<exists>k. Mapping.lookup d answer = Some k \<and>
           length (y ! i) = py_dict_len d + 1 \<and>
           nat k < length (y ! i) \<and>
           (\<forall>j < length (y ! i). y ! i ! j = (if j = nat k then 1 else 0)) \<and>
           sum_list (y ! i) = 1"
proof -
  from assms(1) obtain xs xqs where loop: "vectorize_loop d data = Inr (xs, xqs, y)"
    by (rule vectorize_stories_Inr)
  from vectorize_loop_Inr [OF loop] assms(3,4) have
    one: "vectorize_one d (story, query, answer) = Inr (xs ! i, xqs ! i, y ! i)"
    by auto
  from vectorize_one_Inr(5) [OF one] obtain k where
    k: "Mapping.lookup d answer = Some k" and
    set: "np_setitem (np_zeros (py_dict_len d + 1)) k 1 = Inr (y ! i)"
    by blast
  from k assms(2) have nonneg: "0 \<le> k" by (auto simp: ran_def)
  define n where "n = py_dict_len d + 1"
  from set [folded n_def] nonneg have lt: "nat k < n"
    and y: "y ! i = (replicate n 0)[nat k := 1]"
    by (auto simp: np_setitem_def np_zeros_def split: if_splits)
  from lt have s: "sum_list (y ! i) = 1" unfolding y by (rule one_hot)
  from y have len: "length (y ! i) = n" by simp
  from lt y have "\<forall>j < length (y ! i). y ! i ! j = (if j = nat k then 1 else 0)"
    by (simp add: nth_list_update)
  with k lt s len show ?thesis unfolding n_def by auto
qed

theorem vectorize_stories_one_hot_witness:
  "vectorize_stories sample_examples (word_idx sample_vocab) 7 3 =
     Inr ([[0, 0, 0, 0, 4, 7, 1], [4, 7, 1, 3, 8, 6, 1]],
          [[5, 7, 2], [5, 8, 2]],
          [[0, 0, 0, 0, 1, 0, 0, 0, 0], [0, 0, 0, 1, 0, 0, 0, 0, 0]]) \<and>
   sum_list ([[0, 0, 0, 0, 1, 0, 0, 0, 0], [0, 0, 0, 1, 0, 0, 0, 0, 0]] ! 1) = (1::int) \<and>
   length ([[0, 0, 0, 0, 1, 0, 0, 0, 0], [0, 0, 0, 1, 0, 0, 0, 0, 0 :: int]] ! 1) =
     py_dict_len (word_idx sample_vocab) + 1"
proof -
  have h: "vectorize_stories sample_examples (word_idx sample_vocab) 7 3 =
     Inr ([[0, 0, 0, 0, 4, 7, 1], [4, 7, 1, 3, 8, 6, 1]],
          [[5, 7, 2], [5, 8, 2]],
          [[0, 0, 0, 0, 1, 0, 0, 0, 0], [0, 0, 0, 1, 0, 0, 0, 0, 0]])"
    by (simp add: vectorize_ops sample_examples_def sample_vocab_def)
  have "distinct sample_vocab" by (simp add: sample_vocab_def)
  then have r: "\<forall>k \<in> ran (Mapping.lookup (word_idx sample_vocab)). 0 \<le> k"
    by (simp add: word_idx_ran)
  have i: "1 < length sample_examples" by (simp add: sample_examples_def)
  have e: "sample_examples ! 1 =
     (Sentence [''Mary'', ''moved'', ''.'', ''Bob'', ''sat'', ''down'', ''.''],
      [''Who'', ''sat'', ''?''], ''Bob'')"
    by (simp add: sample_examples_def)
  from vectorize_stories_one_hot [OF h r i e] h show ?thesis
    by blast
qed



lemma vectorize_stories_total:
  assumes a: "(\<forall>ex \<in> set data. tokens_of ex \<subseteq> Mapping.keys d) \<and>
    (\<forall>(story, query, answer) \<in> set data.
        length (py_iter story) \<le> smax \<and> length query \<le> qmax \<and>
        (\<forall>k. Mapping.lookup d answer = Some k \<longrightarrow> 0 \<le> k \<and> k \<le> int (py_dict_len d)))"
  shows "\<exists>r. vectorize_stories data d smax qmax = Inr r"
proof -
  have "\<forall>ex \<in> set data. \<exists>r. vectorize_one d ex = Inr r"
  proof
    fix ex assume ex: "ex \<in> set data"
    obtain story query answer where eq: "ex = (story, query, answer)" by (cases ex)
    from a ex show "\<exists>r. vectorize_one d ex = Inr r"
      unfolding eq by (intro vectorize_one_total) auto
  qed
  then obtain r where "vectorize_loop d data = Inr r"
    using vectorize_loop_total by blast
  then obtain xs xqs ys where loop: "vectorize_loop d data = Inr (xs, xqs, ys)"
    by (cases r) auto
  note l = vectorize_loop_Inr [OF loop]
  have "\<forall>r \<in> set xs. length r \<le> smax"
  proof
    fix r assume "r \<in> set xs"
    then obtain i where i: "i < length xs" "r = xs ! i" by (auto simp: in_set_conv_nth)
    obtain story query answer where eq: "data ! i = (story, query, answer)"
      by (cases "data ! i")
    from l i have "vectorize_one d (data ! i) = Inr (xs ! i, xqs ! i, ys ! i)" by simp
    from vectorize_one_Inr(1) [OF this [unfolded eq]] have "length r = length (py_iter story)"
      by (simp add: i)
    moreover from l i have "data ! i \<in> set data" by simp
    ultimately show "length r \<le> smax" using a eq by fastforce
  qed
  then obtain x where x: "pad_sequences xs smax = Inr x"
    using pad_sequences_total by blast
  have "\<forall>r \<in> set xqs. length r \<le> qmax"
  proof
    fix r assume "r \<in> set xqs"
    then obtain i where i: "i < length xqs" "r = xqs ! i" by (auto simp: in_set_conv_nth)
    obtain story query answer where eq: "data ! i = (story, query, answer)"
      by (cases "data ! i")
    from l i have "vectorize_one d (data ! i) = Inr (xs ! i, xqs ! i, ys ! i)" by simp
    from vectorize_one_Inr(3) [OF this [unfolded eq]] have "length r = length query"
      by (simp add: i)
    moreover from l i have "data ! i \<in> set data" by simp
    ultimately show "length r \<le> qmax" using a eq by fastforce
  qed
  then obtain xq where xq: "pad_sequences xqs qmax = Inr xq"
    using pad_sequences_total by blast
  from loop x xq show ?thesis
    by (simp add: vectorize_stories_def)
qed







text \<open>
  The condition on the ids is the vocabulary's: in a dictionary that gives the answer
  the id 7 and has one key, writing the 1 into the answer vector of 2 entries raises
  IndexError.
\<close>

lemma vectorize_stories_id_out_of_range:
  "tokens_of (Sentence [], [], ''a'') \<subseteq> Mapping.keys (dict [(''a'', 7)]) \<and>
   vectorize_stories [(Sentence [], [], ''a'')] (dict [(''a'', 7)]) 0 0 = Inl IndexError"
  by (simp add: vectorize_ops tokens_of_def)

text \<open>
  C8: when the story of some example has more tokens than the story width, the
  vectorizer fails.
\<close>

theorem vectorize_stories_too_long:
  assumes "\<exists>ex \<in> set data. smax < length (py_iter (fst ex))"
  shows "\<exists>e. vectorize_stories data d smax qmax = Inl e"
proof (cases "vectorize_stories data d smax qmax")
  case (Inl e)
  then show ?thesis by simp
next
  case (Inr r)
  obtain x xq y where r: "r = (x, xq, y)" by (cases r)
  from assms obtain i where i: "i < length data"
    and long: "smax < length (py_iter (fst (data ! i)))"
    by (auto simp: in_set_conv_nth)
  obtain story query answer where eq: "data ! i = (story, query, answer)"
    by (cases "data ! i")
  from Inr [unfolded r] obtain xs xqs where
    loop: "vectorize_loop d data = Inr (xs, xqs, y)" and
    px: "pad_sequences xs smax = Inr x"
    by (rule vectorize_stories_Inr)
  from vectorize_loop_Inr [OF loop] i eq have
    len: "length xs = length data" and
    one: "vectorize_one d (story, query, answer) = Inr (xs ! i, xqs ! i, y ! i)"
    by auto
  from vectorize_one_Inr(1) [OF one] have "length (xs ! i) = length (py_iter story)" by simp
  moreover from pad_sequences_Inr [OF px] len i have "length (xs ! i) \<le> smax" by auto
  ultimately show ?thesis using long eq by simp
qed


theorem vectorize_stories_too_long_witness:
  "(\<exists>ex \<in> set sample_examples. 5 < length (py_iter (fst ex))) \<and>
   (\<exists>e. vectorize_stories sample_examples (word_idx sample_vocab) 5 3 = Inl e)"
proof -
  have h: "\<exists>ex \<in> set sample_examples. 5 < length (py_iter (fst ex))"
    by (simp add: sample_examples_def)
  from vectorize_stories_too_long [OF h, of "word_idx sample_vocab" 3] h show ?thesis
    by blast
qed

lemma too_long_sample:
  "vectorize_stories sample_examples (word_idx sample_vocab) 5 3 = Inl PadError"
  by (simp add: vectorize_ops sample_examples_def sample_vocab_def)

subsection \<open>The cells of the notebook, one after the other\<close>

text \<open>
  The notebook reads the train and the test file in default mode, builds the vocabulary
  and the two widths from all the examples and vectorizes each split. When both files are
  read, none of the later steps fails: the stories are lists of tokens, every token has
  an id between 1 and the size of the vocabulary, and no story or question is longer
  than its width.
\<close>

lemma vocab_union_total:
  "\<forall>ex \<in> set exs. fst ex \<noteq> Placeholder \<Longrightarrow> \<exists>v'. vocab_union v exs = Inr v'"
proof (induction exs arbitrary: v)
  case Nil
  then show ?case by simp
next
  case (Cons ex exs)
  obtain story q answer where ex: "ex = (story, q, answer)" by (cases ex)
  from Cons.prems obtain ts where "story = Sentence ts" by (cases story) (auto simp: ex)
  with Cons show ?case by (simp add: ex)
qed

lemma vocab_total:
  "\<forall>ex \<in> set exs. fst ex \<noteq> Placeholder \<Longrightarrow> \<exists>v. vocab exs = Inr v"
  using vocab_union_total [of exs "[]"] by (auto simp: vocab_def)

lemma notebook_vocab:
  assumes "get_stories f False max_length = Inr train"
    and "get_stories g False max_length' = Inr test"
  shows "\<exists>v. vocab (train @ test) = Inr v"
  using get_stories_default_sentences [OF assms(1)] get_stories_default_sentences [OF assms(2)]
  by (intro vocab_total) auto

lemma py_max_ge:
  assumes m: "py_max ns = Inr m" and n: "n \<in> set ns"
  shows "n \<le> m"
proof -
  from n obtain a rest where ns: "ns = a # rest" by (cases ns) auto
  with m have "m = fold max rest a" by (simp add: py_max_def)
  also have "\<dots> = Max (set (a # rest))" by (rule Max.set_eq_fold [symmetric])
  finally have "m = Max (set ns)" by (simp only: ns)
  with n show ?thesis by simp
qed

lemma py_len_iter: "py_len story = length (py_iter story)"
  by (cases story) simp_all

lemma word_idx_len: "distinct v \<Longrightarrow> py_dict_len (word_idx v) = length v"
  by (simp add: py_dict_len_def Mapping.size_def word_idx_dom distinct_card)

lemma notebook_vectorize:
  assumes v: "vocab train_test = Inr v"
    and sm: "story_maxlen train_test = Inr smax"
    and qm: "query_maxlen train_test = Inr qmax"
    and sub: "set data \<subseteq> set train_test"
  shows "\<exists>r. vectorize_stories data (word_idx v) smax qmax = Inr r"
proof (rule vectorize_stories_total, intro conjI ballI)
  note p = vocab_sorted_distinct [OF v]
  fix ex assume ex: "ex \<in> set data"
  with sub have "tokens_of ex \<subseteq> token_union train_test"
    by (auto simp: token_union_def)
  with p show "tokens_of ex \<subseteq> Mapping.keys (word_idx v)"
    by (simp add: word_idx_dom)
  show "case ex of (story, query, answer) \<Rightarrow>
      length (py_iter story) \<le> smax \<and> length query \<le> qmax \<and>
      (\<forall>k. Mapping.lookup (word_idx v) answer = Some k \<longrightarrow>
        0 \<le> k \<and> k \<le> int (py_dict_len (word_idx v)))"
  proof -
    obtain story query answer where eq: "ex = (story, query, answer)" by (cases ex)
    from ex sub have mem: "ex \<in> set train_test" by auto
    then have "py_len (fst ex) \<in> set (map (\<lambda>ex. py_len (fst ex)) train_test)" by simp
    from py_max_ge [OF sm [unfolded story_maxlen_def] this]
    have s: "length (py_iter story) \<le> smax"
      by (simp add: eq py_len_iter)
    from mem have "length (fst (snd ex)) \<in> set (map (\<lambda>ex. length (fst (snd ex))) train_test)"
      by simp
    from py_max_ge [OF qm [unfolded query_maxlen_def] this]
    have q: "length query \<le> qmax"
      by (simp add: eq)
    have "0 \<le> k \<and> k \<le> int (py_dict_len (word_idx v))"
      if "Mapping.lookup (word_idx v) answer = Some k" for k
    proof -
      from that have "k \<in> ran (Mapping.lookup (word_idx v))" by (rule ranI)
      with p(2) show ?thesis by (simp add: word_idx_ran word_idx_len)
    qed
    with s q show ?thesis by (simp add: eq)
  qed
qed


lemma get_stories_nonempty: "get_stories f only_supporting max_length = Inr exs \<Longrightarrow> exs \<noteq> []"
  by (auto simp: get_stories_def split: sum.splits list.splits)

lemma py_max_total: "ns \<noteq> [] \<Longrightarrow> \<exists>m. py_max ns = Inr m"
  by (cases ns) (simp_all add: py_max_def)

lemma notebook_total:
  assumes tr: "get_stories f False max_length = Inr train"
    and te: "get_stories g False max_length' = Inr test"
  shows "\<exists>v smax qmax x tx.
           vocab (train @ test) = Inr v \<and>
           story_maxlen (train @ test) = Inr smax \<and>
           query_maxlen (train @ test) = Inr qmax \<and>
           vectorize_stories train (word_idx v) smax qmax = Inr x \<and>
           vectorize_stories test (word_idx v) smax qmax = Inr tx"
proof -
  from notebook_vocab [OF tr te] obtain v where v: "vocab (train @ test) = Inr v" ..
  from get_stories_nonempty [OF tr] have ne: "train @ test \<noteq> []" by simp
  then obtain smax where sm: "story_maxlen (train @ test) = Inr smax"
    using py_max_total [of "map (\<lambda>ex. py_len (fst ex)) (train @ test)"]
    by (auto simp: story_maxlen_def)
  from ne obtain qmax where qm: "query_maxlen (train @ test) = Inr qmax"
    using py_max_total [of "map (\<lambda>ex. length (fst (snd ex))) (train @ test)"]
    by (auto simp: query_maxlen_def)
  have "set train \<subseteq> set (train @ test)" by simp
  from notebook_vectorize [OF v sm qm this] obtain x where
    x: "vectorize_stories train (word_idx v) smax qmax = Inr x" ..
  have "set test \<subseteq> set (train @ test)" by simp
  from notebook_vectorize [OF v sm qm this] obtain tx where
    tx: "vectorize_stories test (word_idx v) smax qmax = Inr tx" ..
  from v sm qm x tx show ?thesis by blast
qed

end
